theory Spec2Isabelle
  imports Main "HOL-Library.Word"
begin

unbundle bit_operations_syntax

section \<open>Machine types and the compilation target\<close>

text \<open>
  \<^verbatim>\<open>hammdist.c\<close> works on \<^verbatim>\<open>unsigned char\<close> buffers, on \<^verbatim>\<open>int\<close> lengths, indices and
  counters, and on \<^verbatim>\<open>uint64_t\<close> words. An \<^verbatim>\<open>int\<close> is a 32-bit word read in two's complement
  (\<open>sint\<close>); its comparisons are the signed ones (\<open><s\<close>). Signed overflow, which C leaves
  undefined, is the wrap-around of the 32-bit addition.
\<close>

type_synonym byte = "8 word"
type_synonym cint = "32 word"
type_synonym cuint = "32 word"
type_synonym u64 = "64 word"

text \<open>
  Two things are fixed by the platform the file is compiled for: whether the
  preprocessor test \<^verbatim>\<open>defined(__POPCNT__) || defined(__x86_64__)\<close> holds, and the byte order in
  which \<^verbatim>\<open>memcpy\<close> into a \<^verbatim>\<open>uint64_t\<close> is read back.
\<close>

record target =
  have_popcnt :: bool
  big_endian :: bool

section \<open>Compiler builtins\<close>

text \<open>
  \<^verbatim>\<open>__builtin_popcount\<close> and \<^verbatim>\<open>__builtin_popcountll\<close> are provided by the compiler; by
  their documentation they return the number of 1-bits of the argument, as an \<^verbatim>\<open>int\<close>.
  \<open>bit_count\<close> counts the bit positions below the width at which the word has a 1.
\<close>

definition bit_count :: "'a::len word \<Rightarrow> nat" where
  "bit_count w = length (filter (bit w) [0..<LENGTH('a)])"

definition builtin_popcount :: "cuint \<Rightarrow> cint" where
  "builtin_popcount x = of_nat (bit_count x)"

definition builtin_popcountll :: "u64 \<Rightarrow> cint" where
  "builtin_popcountll x = of_nat (bit_count x)"

section \<open>popcount\_u64\<close>

text \<open>The portable fallback of \<^verbatim>\<open>popcount_u64\<close>, statement by statement.\<close>

definition popcount_u64_fallback :: "u64 \<Rightarrow> cint" where
  "popcount_u64_fallback x0 =
     (let x1 = x0 - (drop_bit 1 x0 AND 0x5555555555555555);
          x2 = (x1 AND 0x3333333333333333) + (drop_bit 2 x1 AND 0x3333333333333333)
      in ucast (drop_bit 56
           (((x2 + drop_bit 4 x2) AND 0x0F0F0F0F0F0F0F0F) * 0x0101010101010101)))"

definition popcount_u64 :: "target \<Rightarrow> u64 \<Rightarrow> cint" where
  "popcount_u64 t x =
     (if have_popcnt t then builtin_popcountll x else popcount_u64_fallback x)"

section \<open>Buffers\<close>

text \<open>
  A buffer is the list of the bytes that are addressable from the pointer. Reading
  outside of it is undefined in C; in the model such a read yields \<open>None\<close>, and so does
  every computation that performs one.
\<close>

definition byte_at :: "byte list \<Rightarrow> cint \<Rightarrow> byte option" where
  "byte_at a i =
     (if 0 \<le> sint i \<and> nat (sint i) < length a then Some (a ! nat (sint i)) else None)"

text \<open>
  \<^verbatim>\<open>memcpy(&x, a, 8)\<close> followed by a read of \<^verbatim>\<open>x\<close>: the first eight bytes of the buffer, in
  the byte order of the target (\<open>word_rcat\<close> puts the head of the list in the most
  significant position).
\<close>

definition memcpy_u64 :: "target \<Rightarrow> byte list \<Rightarrow> u64 option" where
  "memcpy_u64 t a =
     (if length a < 8 then None
      else Some (if big_endian t then word_rcat (take 8 a) else word_rcat (rev (take 8 a))))"

section \<open>hamming\_distance\_blob\<close>

text \<open>The fast path: both lengths are 8.\<close>

definition fast_path :: "target \<Rightarrow> byte list \<Rightarrow> byte list \<Rightarrow> cint option" where
  "fast_path t a b =
     (case memcpy_u64 t a of
        None \<Rightarrow> None
      | Some x \<Rightarrow>
          (case memcpy_u64 t b of
             None \<Rightarrow> None
           | Some y \<Rightarrow> Some (popcount_u64 t (x XOR y))))"

text \<open>
  The first loop, \<^verbatim>\<open>for (int i = 0; i < len; i++) diff += __builtin_popcount(a[i] ^ b[i])\<close>,
  as a recursion on the loop state \<open>(i, diff)\<close>.
\<close>

function xor_loop :: "byte list \<Rightarrow> byte list \<Rightarrow> cint \<Rightarrow> cint \<Rightarrow> cint \<Rightarrow> cint option" where
  "xor_loop a b len i diff =
     (if i <s len then
        (case byte_at a i of
           None \<Rightarrow> None
         | Some x \<Rightarrow>
             (case byte_at b i of
                None \<Rightarrow> None
              | Some y \<Rightarrow>
                  xor_loop a b len (i + 1) (diff + builtin_popcount (ucast x XOR ucast y))))
      else Some diff)"
  by pat_completeness auto

text \<open>
  The tail loops, \<^verbatim>\<open>for (int i = len; i < alen; i++) diff += __builtin_popcount(a[i])\<close>; the
  same loop serves for either operand.
\<close>

function tail_loop :: "byte list \<Rightarrow> cint \<Rightarrow> cint \<Rightarrow> cint \<Rightarrow> cint option" where
  "tail_loop a alen i diff =
     (if i <s alen then
        (case byte_at a i of
           None \<Rightarrow> None
         | Some x \<Rightarrow> tail_loop a alen (i + 1) (diff + builtin_popcount (ucast x)))
      else Some diff)"
  by pat_completeness auto

text \<open>The general path: lines 30 to 47.\<close>

definition general_path :: "byte list \<Rightarrow> cint \<Rightarrow> byte list \<Rightarrow> cint \<Rightarrow> cint option" where
  "general_path a alen b blen =
     (let len = (if alen <s blen then alen else blen) in
      case xor_loop a b len 0 0 of
        None \<Rightarrow> None
      | Some diff \<Rightarrow>
          if len <s alen then tail_loop a alen len diff
          else if len <s blen then tail_loop b blen len diff
          else Some diff)"

definition hamming_distance_blob ::
  "target \<Rightarrow> byte list \<Rightarrow> cint \<Rightarrow> byte list \<Rightarrow> cint \<Rightarrow> cint option" where
  "hamming_distance_blob t a alen b blen =
     (if alen = 8 \<and> blen = 8 then fast_path t a b else general_path a alen b blen)"

section \<open>The SQL function\<close>

text \<open>
  The host hands the function its arguments as \<^verbatim>\<open>sqlite3_value\<close> objects. The function
  is registered for blobs; an argument is SQL NULL or a blob (the behaviour on other
  storage classes is outside of the specification). The two accessors follow the SQLite
  documentation: \<^verbatim>\<open>sqlite3_value_blob\<close> returns a null pointer for SQL NULL and for a
  zero-length blob, and \<^verbatim>\<open>sqlite3_value_bytes\<close> returns the length in bytes.
\<close>

datatype sql_value = SQL_Null | SQL_Blob "byte list"

fun sqlite3_value_blob :: "sql_value \<Rightarrow> byte list option" where
  "sqlite3_value_blob SQL_Null = None"
| "sqlite3_value_blob (SQL_Blob bs) = (if bs = [] then None else Some bs)"

fun sqlite3_value_bytes :: "sql_value \<Rightarrow> cint" where
  "sqlite3_value_bytes SQL_Null = 0"
| "sqlite3_value_bytes (SQL_Blob bs) = of_nat (length bs)"

text \<open>
  What one run of \<^verbatim>\<open>hamming_distance_sql\<close> does is recorded as the sequence of its calls:
  the results it reports to the host (\<^verbatim>\<open>sqlite3_result_null\<close>, \<^verbatim>\<open>sqlite3_result_int\<close>;
  \<^verbatim>\<open>sqlite3_result_error\<close> is the host's way of raising an error, which the function
  never uses) and its calls of \<^verbatim>\<open>hamming_distance_blob\<close>. \<open>Undefined\<close> stands for a run
  that reads outside of a buffer or of \<^verbatim>\<open>argv\<close>.
\<close>

datatype call =
    Result_null
  | Result_int cint
  | Result_error string
  | Distance_blob "byte list" cint "byte list" cint
  | Undefined

definition hamming_distance_sql :: "target \<Rightarrow> cint \<Rightarrow> sql_value list \<Rightarrow> call list" where
  "hamming_distance_sql t argc argv =
     (if argc \<noteq> 2 then [Result_null]
      else
        (case argv of
           v0 # v1 # _ \<Rightarrow>
             (let a = sqlite3_value_blob v0;
                  b = sqlite3_value_blob v1;
                  alen = sqlite3_value_bytes v0;
                  blen = sqlite3_value_bytes v1
              in case (a, b) of
                   (Some pa, Some pb) \<Rightarrow>
                     Distance_blob pa alen pb blen #
                       (case hamming_distance_blob t pa alen pb blen of
                          Some dist \<Rightarrow> [Result_int dist]
                        | None \<Rightarrow> [Undefined])
                 | _ \<Rightarrow> [Result_null])
         | _ \<Rightarrow> [Undefined]))"

section \<open>The distance that the specification describes\<close>

text \<open>
  The buffer \<open>a\<close> holds exactly \<open>alen\<close> bytes: the pair of a pointer and an \<^verbatim>\<open>int\<close>
  length that the caller passes describes the whole blob.
\<close>

definition is_blob :: "byte list \<Rightarrow> cint \<Rightarrow> bool" where
  "is_blob a alen \<longleftrightarrow> sint alen = int (length a)"

text \<open>
  The Hamming distance in the words of the specification: extend the shorter sequence
  with zero bytes at its end, to the length of the longer, and count the bit positions
  (byte \<open>i\<close>, bit \<open>j\<close>) at which the two sequences differ.
\<close>

definition zero_extend :: "nat \<Rightarrow> byte list \<Rightarrow> byte list" where
  "zero_extend n xs = xs @ replicate (n - length xs) 0"

definition hamming_spec :: "byte list \<Rightarrow> byte list \<Rightarrow> nat" where
  "hamming_spec a b =
     (let n = max (length a) (length b);
          za = zero_extend n a;
          zb = zero_extend n b
      in length (filter (\<lambda>(i, j). bit (za ! i) j \<noteq> bit (zb ! i) j)
                   (List.product [0..<n] [0..<8])))"

text \<open>
  The same number as the specification's sum: the bit counts of \<open>a[i] XOR b[i]\<close> over the
  common prefix, plus the bit counts of the bytes by which one sequence is longer than
  the other.
\<close>

definition prefix_tail_sum :: "byte list \<Rightarrow> byte list \<Rightarrow> nat" where
  "prefix_tail_sum a b =
     sum_list (map2 (\<lambda>x y. bit_count (x XOR y)) a b)
     + sum_list (map bit_count (drop (length b) a))
     + sum_list (map bit_count (drop (length a) b))"

section \<open>Auxiliary notions for the proofs\<close>

text \<open>The number of 1-bits of a natural number.\<close>

fun popcount_nat :: "nat \<Rightarrow> nat" where
  "popcount_nat n = (if n = 0 then 0 else n mod 2 + popcount_nat (n div 2))"

text \<open>The number whose base-256 digits, least significant first, are the given ones.\<close>

fun le_val :: "nat list \<Rightarrow> nat" where
  "le_val [] = 0"
| "le_val (d # ds) = d + 256 * le_val ds"

text \<open>What the three masking statements of the fallback do to one byte of the word.\<close>

definition swar1 :: "nat \<Rightarrow> nat" where
  "swar1 d = d - ((d div 2) AND 0x55)"

definition swar2 :: "nat \<Rightarrow> nat" where
  "swar2 d = (d AND 0x33) + ((d div 4) AND 0x33)"

definition swar3 :: "nat \<Rightarrow> nat" where
  "swar3 d = d mod 16 + d div 16"

section \<open>Termination of the loops\<close>

text \<open>
  While \<^verbatim>\<open>i < len\<close> holds, \<^verbatim>\<open>i++\<close> does not overflow, so that the distance of \<open>i\<close> from the
  bound decreases.
\<close>

lemma sint_succ_below:
  fixes i n :: cint
  assumes "i <s n"
  shows "sint (i + 1) = sint i + 1"
proof -
  have "sint n < 2 ^ 31"
    using sint_lt [of n] by simp
  moreover have "- (2 ^ 31) \<le> sint i"
    using sint_ge [of i] by simp
  moreover have "sint i < sint n"
    using assms by (simp add: word_sless_alt)
  ultimately have "signed_take_bit 31 (sint i + 1) = sint i + 1"
    by (intro signed_take_bit_int_eq_self) auto
  then show ?thesis
    by (simp add: sint_word_ariths)
qed

termination xor_loop
  by (relation "measure (\<lambda>(a, b, len, i, diff). nat (sint len - sint i))")
     (auto simp: sint_succ_below word_sless_alt)

termination tail_loop
  by (relation "measure (\<lambda>(a, alen, i, diff). nat (sint alen - sint i))")
     (auto simp: sint_succ_below word_sless_alt)

declare xor_loop.simps [simp del] tail_loop.simps [simp del] popcount_nat.simps [simp del]

section \<open>Bitwise operations on numbers split into a low part and a high part\<close>

lemma nat_split_at: "(z::nat) = take_bit k z + 2 ^ k * drop_bit k z"
  by (simp add: take_bit_eq_mod drop_bit_eq_div)

lemma take_bit_low_high:
  fixes a x :: nat
  assumes "a < 2 ^ k"
  shows "take_bit k (a + 2 ^ k * x) = a" and "drop_bit k (a + 2 ^ k * x) = x"
  using assms by (simp_all add: take_bit_eq_mod drop_bit_eq_div)

lemma and_low_high:
  fixes a m x y :: nat
  assumes "a < 2 ^ k" "m < 2 ^ k"
  shows "(a + 2 ^ k * x) AND (m + 2 ^ k * y) = (a AND m) + 2 ^ k * (x AND y)"
proof -
  let ?L = "(a + 2 ^ k * x) AND (m + 2 ^ k * y)"
  have "take_bit k ?L = a AND m"
    using assms by (simp add: take_bit_and take_bit_low_high)
  moreover have "drop_bit k ?L = x AND y"
    using assms by (simp add: drop_bit_and take_bit_low_high)
  ultimately show ?thesis
    using nat_split_at [of ?L k] by simp
qed

lemma xor_low_high:
  fixes a m x y :: nat
  assumes "a < 2 ^ k" "m < 2 ^ k"
  shows "(a + 2 ^ k * x) XOR (m + 2 ^ k * y) = (a XOR m) + 2 ^ k * (x XOR y)"
proof -
  let ?L = "(a + 2 ^ k * x) XOR (m + 2 ^ k * y)"
  have "take_bit k ?L = a XOR m"
    using assms by (simp add: take_bit_xor take_bit_low_high)
  moreover have "drop_bit k ?L = x XOR y"
    using assms by (simp add: drop_bit_xor take_bit_low_high)
  ultimately show ?thesis
    using nat_split_at [of ?L k] by simp
qed

lemma and_shifted:
  fixes x y :: nat
  shows "x AND (2 ^ j * y) = 2 ^ j * ((x div 2 ^ j) AND y)"
proof -
  have "x AND push_bit j y = push_bit j (drop_bit j x AND y)"
    by (rule bit_eqI) (auto simp: bit_simps)
  then show ?thesis
    by (simp add: push_bit_eq_mult drop_bit_eq_div mult.commute)
qed

lemma shift_and_byte:
  fixes d m x y :: nat
  assumes "d < 256" "m < 2 ^ (8 - j)" "j \<le> 8"
  shows "((d + 256 * x) div 2 ^ j) AND (m + 256 * y) =
         ((d div 2 ^ j) AND m) + 256 * ((x div 2 ^ j) AND y)"
proof -
  have e: "(256::nat) = 2 ^ (8 - j) * 2 ^ j"
    using assms(3) by (simp flip: power_add)
  have A: "(d + 256 * x) div 2 ^ j = d div 2 ^ j + 2 ^ (8 - j) * x"
  proof -
    have "(d + 256 * x) div 2 ^ j = (d + (2 ^ (8 - j) * x) * 2 ^ j) div 2 ^ j"
      by (subst e) (simp add: mult_ac)
    also have "\<dots> = d div 2 ^ j + 2 ^ (8 - j) * x"
      by simp
    finally show ?thesis .
  qed
  have B: "d div 2 ^ j < 2 ^ (8 - j)"
    using assms(1) by (subst (asm) e) (simp add: less_mult_imp_div_less)
  have C: "m + 256 * y = m + 2 ^ (8 - j) * (2 ^ j * y)"
    by (subst e) simp
  have "((d + 256 * x) div 2 ^ j) AND (m + 256 * y) =
        (d div 2 ^ j + 2 ^ (8 - j) * x) AND (m + 2 ^ (8 - j) * (2 ^ j * y))"
    by (simp only: A C)
  also have "\<dots> = ((d div 2 ^ j) AND m) + 2 ^ (8 - j) * (x AND (2 ^ j * y))"
    by (rule and_low_high [OF B assms(2)])
  also have "\<dots> = ((d div 2 ^ j) AND m) + 2 ^ (8 - j) * (2 ^ j * ((x div 2 ^ j) AND y))"
    by (simp only: and_shifted)
  also have "\<dots> = ((d div 2 ^ j) AND m) + 256 * ((x div 2 ^ j) AND y)"
    using e by (simp add: mult.assoc [symmetric])
  finally show ?thesis .
qed

section \<open>The masking statements of the fallback act byte by byte\<close>

text \<open>
  A 64-bit value is \<open>le_val\<close> of its eight bytes. The first two statements of the
  fallback never carry or borrow across a byte boundary; the third does not either, as long
  as both nibbles of every byte are at most 4, which they are after the second.
\<close>

lemma nat_and_le: "(a::nat) AND b \<le> a"
proof -
  have "int a AND int b \<le> int a" by simp
  then show ?thesis by (simp flip: of_nat_and_eq)
qed

lemma nat_and_le2: "(a::nat) AND b \<le> b"
  using nat_and_le [of b a] by (simp add: and.commute)

lemma step1_bytes:
  assumes "\<forall>d\<in>set ds. d < 256"
  shows "(le_val ds div 2) AND le_val (map (\<lambda>_. 0x55) ds) = le_val (map (\<lambda>d. (d div 2) AND 0x55) ds)"
  using assms
proof (induction ds)
  case Nil
  then show ?case by simp
next
  case (Cons d ds)
  then show ?case
    using shift_and_byte [of d "0x55" 1 "le_val ds" "le_val (map (\<lambda>_. 0x55) ds)"]
    by simp
qed

lemma le_val_mono:
  "list_all2 (\<le>) xs ys \<Longrightarrow> le_val xs \<le> le_val ys"
  by (induction rule: list_all2_induct) (auto intro: add_mono)

lemma le_val_sub:
  "list_all2 (\<le>) xs ys \<Longrightarrow> le_val ys - le_val xs = le_val (map2 (\<lambda>y x. y - x) ys xs)"
proof (induction rule: list_all2_induct)
  case Nil
  then show ?case by simp
next
  case (Cons x xs y ys)
  have "le_val xs \<le> le_val ys" using Cons by (simp add: le_val_mono)
  then show ?case using Cons by (simp add: algebra_simps)
qed

lemma le_val_add:
  "length xs = length ys \<Longrightarrow> le_val xs + le_val ys = le_val (map2 (+) xs ys)"
  by (induction xs ys rule: list_induct2) (simp_all add: algebra_simps)

lemma step1:
  assumes "\<forall>d\<in>set ds. d < 256"
  shows "le_val ds - ((le_val ds div 2) AND le_val (map (\<lambda>_. 0x55) ds)) = le_val (map swar1 ds)"
proof -
  have "list_all2 (\<le>) (map (\<lambda>d. (d div 2) AND 0x55) ds) ds"
    by (simp add: list_all2_conv_all_nth) (meson nat_and_le div_le_dividend le_trans)
  from le_val_sub [OF this] show ?thesis
    by (simp add: step1_bytes [OF assms] swar1_def [abs_def] zip_map2 zip_same_conv_map comp_def)
qed

lemma step2a:
  assumes "\<forall>d\<in>set ds. d < 256"
  shows "le_val ds AND le_val (map (\<lambda>_. 0x33) ds) = le_val (map (\<lambda>d. d AND 0x33) ds)"
  using assms
proof (induction ds)
  case Nil
  then show ?case by simp
next
  case (Cons d ds)
  then show ?case
    using and_low_high [of d 8 "0x33" "le_val ds" "le_val (map (\<lambda>_. 0x33) ds)"]
    by simp
qed

lemma step2b:
  assumes "\<forall>d\<in>set ds. d < 256"
  shows "(le_val ds div 4) AND le_val (map (\<lambda>_. 0x33) ds) = le_val (map (\<lambda>d. (d div 4) AND 0x33) ds)"
  using assms
proof (induction ds)
  case Nil
  then show ?case by simp
next
  case (Cons d ds)
  then show ?case
    using shift_and_byte [of d "0x33" 2 "le_val ds" "le_val (map (\<lambda>_. 0x33) ds)"]
    by simp
qed

lemma step2:
  assumes "\<forall>d\<in>set ds. d < 256"
  shows "(le_val ds AND le_val (map (\<lambda>_. 0x33) ds)) + ((le_val ds div 4) AND le_val (map (\<lambda>_. 0x33) ds))
     = le_val (map swar2 ds)"
  by (simp add: step2a [OF assms] step2b [OF assms] le_val_add swar2_def [abs_def] zip_map_map zip_same_conv_map comp_def)

lemma and_15: "(c::nat) AND 15 = c mod 16"
proof -
  have "c AND mask 4 = take_bit 4 c" by (simp add: take_bit_eq_mask)
  then show ?thesis by (simp add: mask_eq_exp_minus_1 take_bit_eq_mod)
qed

lemma le_val_mod16: "\<forall>d\<in>set ds. d mod 16 \<le> 4 \<Longrightarrow> le_val ds mod 16 \<le> 4"
proof (cases ds)
  case Nil then show ?thesis by simp
next
  case (Cons d ds')
  assume a: "\<forall>d\<in>set ds. d mod 16 \<le> 4"
  have "(d + 256 * le_val ds') mod 16 = d mod 16"
    using mod_mult_self2 [of d 16 "16 * le_val ds'"] by simp
  then show ?thesis using a Cons by simp
qed

lemma step3:
  assumes "\<forall>d\<in>set ds. d mod 16 \<le> 4 \<and> d div 16 \<le> 4"
  shows "(le_val ds + le_val ds div 16) AND le_val (map (\<lambda>_. 0x0F) ds) = le_val (map swar3 ds)"
  using assms
proof (induction ds)
  case Nil
  then show ?case by simp
next
  case (Cons d ds)
  let ?v = "le_val ds"
  let ?c = "d + d div 16 + 16 * (?v mod 16)"
  have v: "?v mod 16 \<le> 4" using Cons.prems by (simp add: le_val_mod16)
  have d: "d mod 16 \<le> 4" "d div 16 \<le> 4" using Cons.prems by simp_all
  have d68: "d \<le> 68"
    using d mult_div_mod_eq [of 16 d] by linarith
  have c: "?c < 2 ^ 8" using v d d68 by simp
  have "(d + 256 * ?v) div 16 = d div 16 + 16 * ?v" by simp
  moreover have "16 * ?v = 16 * (?v mod 16) + 256 * (?v div 16)"
    using mult_div_mod_eq [of 16 ?v] by linarith
  ultimately have e: "(d + 256 * ?v) + (d + 256 * ?v) div 16 = ?c + 2 ^ 8 * (?v + ?v div 16)"
    by simp
  have "?c mod 16 = (d + d div 16) mod 16"
    using mod_mult_self2 [of "d + d div 16" 16 "?v mod 16"] by simp
  also have "\<dots> = (d mod 16 + d div 16) mod 16"
    by (simp add: mod_add_left_eq)
  also have "\<dots> = swar3 d"
    using d by (simp add: swar3_def)
  finally have "?c mod 16 = swar3 d" .
  then have "((d + 256 * ?v) + (d + 256 * ?v) div 16) AND (15 + 2 ^ 8 * le_val (map (\<lambda>_. 0x0F) ds))
     = swar3 d + 2 ^ 8 * ((?v + ?v div 16) AND le_val (map (\<lambda>_. 0x0F) ds))"
    unfolding e using c by (subst and_low_high) (simp_all add: and_15)
  then show ?case using Cons by simp
qed

section \<open>Bit counts of natural numbers\<close>

lemma popcount_nat_0 [simp]: "popcount_nat 0 = 0"
  by (simp add: popcount_nat.simps)

lemma popcount_nat_rec: "popcount_nat n = n mod 2 + popcount_nat (n div 2)"
  by (cases "n = 0") (simp_all add: popcount_nat.simps [of n])

lemma popcount_nat_low_high: "a < 2 ^ k \<Longrightarrow> popcount_nat (a + 2 ^ k * x) = popcount_nat a + popcount_nat x"
proof (induction k arbitrary: a)
  case 0
  then show ?case by simp
next
  case (Suc k)
  have "a div 2 < 2 ^ k" using Suc.prems by simp
  then have "popcount_nat (a div 2 + 2 ^ k * x) = popcount_nat (a div 2) + popcount_nat x" by (rule Suc.IH)
  moreover have "(a + 2 ^ Suc k * x) div 2 = a div 2 + 2 ^ k * x" by simp
  moreover have "(a + 2 ^ Suc k * x) mod 2 = a mod 2" by (simp add: mult.assoc)
  ultimately show ?case
    by (subst popcount_nat_rec, subst (2) popcount_nat_rec) simp
qed

lemma popcount_nat_le_val: "\<forall>d\<in>set ds. d < 256 \<Longrightarrow> popcount_nat (le_val ds) = sum_list (map popcount_nat ds)"
proof (induction ds)
  case Nil
  then show ?case by simp
next
  case (Cons d ds)
  then show ?case using popcount_nat_low_high [of d 8 "le_val ds"] by simp
qed

lemma bytes_of_nat:
  "n < 256 ^ k \<Longrightarrow> \<exists>ds. length ds = k \<and> (\<forall>d\<in>set ds. d < 256) \<and> le_val ds = n"
proof (induction k arbitrary: n)
  case 0
  then show ?case by simp
next
  case (Suc k)
  have "n div 256 < 256 ^ k" using Suc.prems by (simp add: less_mult_imp_div_less mult.commute)
  then obtain ds where "length ds = k" "\<forall>d\<in>set ds. d < 256" "le_val ds = n div 256"
    using Suc.IH by blast
  then have "length (n mod 256 # ds) = Suc k \<and> (\<forall>d\<in>set (n mod 256 # ds). d < 256) \<and> le_val (n mod 256 # ds) = n"
    by simp
  then show ?case by blast
qed

section \<open>The three statements on a single byte\<close>

text \<open>
  On one byte the three statements leave the number of its 1-bits; the 256 byte values
  are checked one by one.
\<close>

lemma popcount_nat_numeral [simp]:
  "popcount_nat 1 = 1"
  "popcount_nat (numeral (Num.Bit0 n)) = popcount_nat (numeral n)"
  "popcount_nat (numeral (Num.Bit1 n)) = Suc (popcount_nat (numeral n))"
  "popcount_nat (Suc 0) = 1"
  by (subst popcount_nat_rec, simp add: numeral_Bit0_div_2 numeral_Bit1_div_2)+

lemma all_below_numeral: "(\<forall>b<numeral k. P b) \<longleftrightarrow> P (pred_numeral k) \<and> (\<forall>b<pred_numeral k. P b)"
  by (metis less_Suc_eq numeral_eq_Suc)

lemma byte_table:
  "\<forall>b<256. swar2 (swar1 b) mod 16 \<le> 4 \<and> swar2 (swar1 b) div 16 \<le> 4 \<and> swar3 (swar2 (swar1 b)) = popcount_nat b"
  by (simp add: all_below_numeral swar1_def swar2_def swar3_def)

section \<open>The final multiplication adds up the bytes\<close>

lemma top_byte:
  fixes L S H :: nat
  assumes "L < 2 ^ 56" "S < 256"
  shows "((L + 2 ^ 56 * S) + 2 ^ 64 * H) mod 2 ^ 64 div 2 ^ 56 = S"
proof -
  have "L + 2 ^ 56 * S < 2 ^ 64" using assms by simp
  then have "((L + 2 ^ 56 * S) + 2 ^ 64 * H) mod 2 ^ 64 = L + 2 ^ 56 * S"
    by simp
  then show ?thesis using assms(1) by simp
qed

lemma step4:
  fixes e0 e1 e2 e3 e4 e5 e6 e7 :: nat
  assumes "e0 \<le> 8" "e1 \<le> 8" "e2 \<le> 8" "e3 \<le> 8" "e4 \<le> 8" "e5 \<le> 8" "e6 \<le> 8" "e7 \<le> 8"
  shows "(le_val [e0, e1, e2, e3, e4, e5, e6, e7] * 0x0101010101010101) mod 2 ^ 64 div 2 ^ 56
         = e0 + e1 + e2 + e3 + e4 + e5 + e6 + e7"
proof -
  let ?S = "e0 + e1 + e2 + e3 + e4 + e5 + e6 + e7"
  let ?L = "le_val [e0, e0 + e1, e0 + e1 + e2, e0 + e1 + e2 + e3, e0 + e1 + e2 + e3 + e4,
                    e0 + e1 + e2 + e3 + e4 + e5, e0 + e1 + e2 + e3 + e4 + e5 + e6]"
  let ?H = "le_val [e1 + e2 + e3 + e4 + e5 + e6 + e7, e2 + e3 + e4 + e5 + e6 + e7,
                    e3 + e4 + e5 + e6 + e7, e4 + e5 + e6 + e7, e5 + e6 + e7, e6 + e7, e7]"
  have split: "le_val [e0, e1, e2, e3, e4, e5, e6, e7] * 0x0101010101010101
               = (?L + 2 ^ 56 * ?S) + 2 ^ 64 * ?H"
    by (simp add: algebra_simps)
  have L: "?L < 2 ^ 56" using assms by simp
  have S: "?S < 256" using assms by simp
  show ?thesis
    unfolding split by (rule top_byte [OF L S])
qed

lemma list8:
  assumes "length ds = 8"
  obtains b0 b1 b2 b3 b4 b5 b6 b7 where "ds = [b0, b1, b2, b3, b4, b5, b6, b7]"
  using assms by (auto simp: length_Suc_conv eval_nat_numeral)

section \<open>The fallback on natural numbers\<close>

lemma digit_facts:
  assumes "b < 256"
  shows "swar1 b < 256" "swar2 (swar1 b) mod 16 \<le> 4 \<and> swar2 (swar1 b) div 16 \<le> 4" "swar3 (swar2 (swar1 b)) = popcount_nat b" "popcount_nat b \<le> 8"
proof -
  show "swar1 b < 256" using assms by (simp add: swar1_def)
  show q: "swar2 (swar1 b) mod 16 \<le> 4 \<and> swar2 (swar1 b) div 16 \<le> 4" using byte_table assms by blast
  show e: "swar3 (swar2 (swar1 b)) = popcount_nat b" using byte_table assms by blast
  show "popcount_nat b \<le> 8" using q unfolding e [symmetric] swar3_def by linarith
qed

lemma swar_nat:
  assumes "n < 2 ^ 64"
  defines "n1 \<equiv> n - ((n div 2) AND 0x5555555555555555)"
  defines "n2 \<equiv> (n1 AND 0x3333333333333333) + ((n1 div 4) AND 0x3333333333333333)"
  defines "n3 \<equiv> (n2 + n2 div 16) AND 0x0F0F0F0F0F0F0F0F"
  shows "(n3 * 0x0101010101010101) mod 2 ^ 64 div 2 ^ 56 = popcount_nat n"
proof -
  have "n < 256 ^ 8" using assms(1) by simp
  then obtain ds where ds: "length ds = 8" "\<forall>d\<in>set ds. d < 256" "le_val ds = n"
    using bytes_of_nat by blast
  obtain b0 b1 b2 b3 b4 b5 b6 b7 where bs: "ds = [b0, b1, b2, b3, b4, b5, b6, b7]"
    using ds(1) by (rule list8)
  have m1: "le_val (map (\<lambda>_. 0x55) ds) = 0x5555555555555555"
    and m2: "le_val (map (\<lambda>_. 0x33) ds) = 0x3333333333333333"
    and m4: "le_val (map (\<lambda>_. 0x0F) ds) = 0x0F0F0F0F0F0F0F0F"
    unfolding bs by simp_all
  have e1: "n1 = le_val (map swar1 ds)"
    unfolding n1_def using step1 [OF ds(2)] by (simp only: m1 ds(3))
  have d1: "\<forall>d\<in>set (map swar1 ds). d < 256"
    using ds(2) by (simp add: digit_facts)
  have e2: "n2 = le_val (map swar2 (map swar1 ds))"
    unfolding n2_def e1 using step2 [OF d1] by (simp only: m2 map_map length_map comp_def)
  have d2: "\<forall>d\<in>set (map swar2 (map swar1 ds)). d mod 16 \<le> 4 \<and> d div 16 \<le> 4"
    using ds(2) by (simp add: digit_facts)
  have e3: "n3 = le_val (map popcount_nat ds)"
  proof -
    have "n3 = le_val (map swar3 (map swar2 (map swar1 ds)))"
      unfolding n3_def e2 using step3 [OF d2] by (simp only: m4 map_map length_map comp_def)
    also have "map swar3 (map swar2 (map swar1 ds)) = map popcount_nat ds"
      using ds(2) by (simp add: digit_facts)
    finally show ?thesis .
  qed
  have "(n3 * 0x0101010101010101) mod 2 ^ 64 div 2 ^ 56 = sum_list (map popcount_nat ds)"
    unfolding e3 bs using ds(2) bs step4 [of "popcount_nat b0" "popcount_nat b1" "popcount_nat b2" "popcount_nat b3" "popcount_nat b4" "popcount_nat b5" "popcount_nat b6" "popcount_nat b7"]
    by (simp add: digit_facts)
  also have "\<dots> = popcount_nat n"
    using popcount_nat_le_val [OF ds(2)] ds(3) by simp
  finally show ?thesis .
qed

section \<open>The fallback on 64-bit words\<close>

lemma filter_bit_pc:
  fixes n :: nat
  shows "n < 2 ^ k \<Longrightarrow> length (filter (bit n) [0..<k]) = popcount_nat n"
proof (induction k arbitrary: n)
  case 0
  then show ?case by simp
next
  case (Suc k)
  have "n div 2 < 2 ^ k" using Suc.prems by simp
  then have ih: "length (filter (bit (n div 2)) [0..<k]) = popcount_nat (n div 2)" by (rule Suc.IH)
  have "[0..<Suc k] = 0 # map Suc [0..<k]"
    by (simp add: upt_conv_Cons map_Suc_upt del: upt_Suc)
  then have "length (filter (bit n) [0..<Suc k]) =
             (if odd n then 1 else 0) + length (filter (bit (n div 2)) [0..<k])"
    by (simp add: filter_map comp_def bit_Suc bit_0 del: upt_Suc)
  also have "\<dots> = n mod 2 + popcount_nat (n div 2)"
    using ih by (simp add: odd_iff_mod_2_eq_one)
  finally show ?case by (subst popcount_nat_rec)
qed

lemma bit_count_pc: "bit_count w = popcount_nat (unat w)"
proof -
  have "filter (bit w) [0..<LENGTH('a)] = filter (bit (unat w)) [0..<LENGTH('a)]"
    by (rule filter_cong) (simp_all add: bit_unsigned_iff)
  then show ?thesis
    unfolding bit_count_def using filter_bit_pc [of "unat w" "LENGTH('a)"] by simp
qed

lemma bit_count_card: "bit_count w = card {i. bit w i}"
proof -
  have "{i. bit w i} = set (filter (bit w) [0..<LENGTH('a)])"
    by (auto simp: bit_imp_le_length)
  moreover have "card (set (filter (bit w) [0..<LENGTH('a)])) = length (filter (bit w) [0..<LENGTH('a)])"
    by (rule distinct_card) simp
  ultimately show ?thesis
    unfolding bit_count_def by (simp only:)
qed

lemma len64: "LENGTH(64) = 64"
  by simp

lemma fallback_pc: "popcount_u64_fallback x = of_nat (popcount_nat (unat x))"
proof -
  define n where "n = unat x"
  define n1 where "n1 = n - ((n div 2) AND 0x5555555555555555)"
  define n2 where "n2 = (n1 AND 0x3333333333333333) + ((n1 div 4) AND 0x3333333333333333)"
  define n3 where "n3 = (n2 + n2 div 16) AND 0x0F0F0F0F0F0F0F0F"
  define x1 where "x1 = x - (drop_bit 1 x AND 0x5555555555555555)"
  define x2 where "x2 = (x1 AND 0x3333333333333333) + (drop_bit 2 x1 AND 0x3333333333333333)"
  define x3 where "x3 = (x2 + drop_bit 4 x2) AND 0x0F0F0F0F0F0F0F0F"
  have n: "n < 2 ^ 64" unfolding n_def using unsigned_less [of x] by simp
  have sub: "unat (drop_bit 1 x AND 0x5555555555555555) = (n div 2) AND 0x5555555555555555"
    by (simp add: unsigned_and_eq unat_drop_bit_eq drop_bit_eq_div unat_div n_def)
  have "(n div 2) AND 0x5555555555555555 \<le> n"
    by (meson nat_and_le div_le_dividend le_trans)
  then have u1: "unat x1 = n1"
    unfolding x1_def n1_def using sub by (simp add: unat_sub word_le_nat_alt n_def)
  have b2: "n2 \<le> 0x6666666666666666"
    unfolding n2_def
    using nat_and_le2 [of n1 "0x3333333333333333"] nat_and_le2 [of "n1 div 4" "0x3333333333333333"]
    by linarith
  have u2: "unat x2 = n2"
  proof -
    have "unat (x1 AND 0x3333333333333333) + unat (drop_bit 2 x1 AND 0x3333333333333333) = n2"
      by (simp add: unsigned_and_eq unat_drop_bit_eq drop_bit_eq_div unat_div u1 n2_def)
    then show ?thesis
      unfolding x2_def using b2 by (subst unat_add_lem [THEN iffD1]) simp_all
  qed
  have u3: "unat x3 = n3"
  proof -
    have "unat x2 + unat (drop_bit 4 x2) = n2 + n2 div 16"
      by (simp add: unat_drop_bit_eq drop_bit_eq_div unat_div u2)
    moreover have "n2 + n2 div 16 < 2 ^ 64" using b2 by simp
    ultimately have "unat (x2 + drop_bit 4 x2) = n2 + n2 div 16"
      by (subst unat_add_lem [THEN iffD1]) simp_all
    then show ?thesis
      unfolding x3_def n3_def by (simp add: unsigned_and_eq)
  qed
  have c: "unat (0x0101010101010101 :: u64) = 0x0101010101010101"
    by simp
  have "unat (x3 * 0x0101010101010101) = (n3 * 0x0101010101010101) mod 2 ^ 64"
    by (simp only: unat_word_ariths(2) u3 c len64)
  then have "unat (drop_bit 56 (x3 * 0x0101010101010101)) = (n3 * 0x0101010101010101) mod 2 ^ 64 div 2 ^ 56"
    by (simp only: unat_drop_bit_eq drop_bit_nat_def)
  also have "\<dots> = popcount_nat n"
    unfolding n3_def n2_def n1_def by (rule swar_nat [OF n])
  finally have r: "unat (drop_bit 56 (x3 * 0x0101010101010101)) = popcount_nat (unat x)"
    by (simp only: n_def)
  have "ucast (drop_bit 56 (x3 * 0x0101010101010101)) =
        (of_nat (unat (drop_bit 56 (x3 * 0x0101010101010101))) :: cint)"
    by (rule of_nat_unat [symmetric])
  then have "ucast (drop_bit 56 (x3 * 0x0101010101010101)) = (of_nat (popcount_nat (unat x)) :: cint)"
    by (simp only: r)
  then show ?thesis
    by (simp only: popcount_u64_fallback_def Let_def x3_def x2_def x1_def)
qed

section \<open>The loops of the general path\<close>

lemma builtin_popcount_xor:
  fixes x y :: byte
  shows "builtin_popcount (ucast x XOR ucast y) = of_nat (bit_count (x XOR y))"
proof -
  have "unat (ucast z :: cuint) = unat z" for z :: byte
  proof -
    have "unat z < 2 ^ 8" using unsigned_less [of z, where ?'a = nat] by simp
    then have "unat z < 2 ^ 32" by simp
    then show ?thesis by (simp add: unsigned_ucast_eq take_bit_nat_eq_self)
  qed
  then have "unat (ucast x XOR ucast y :: cuint) = unat (x XOR y)"
    by (simp add: unsigned_xor_eq)
  then show ?thesis
    by (simp add: builtin_popcount_def bit_count_pc)
qed

lemma builtin_popcount_byte:
  fixes x :: byte
  shows "builtin_popcount (ucast x) = of_nat (bit_count x)"
  using builtin_popcount_xor [of x 0] by simp

lemma drop_take_step:
  assumes "k < n" "n \<le> length a"
  shows "drop k (take n a) = a ! k # drop (Suc k) (take n a)"
proof -
  have "k < length (take n a)" using assms by simp
  then have "take n a ! k # drop (Suc k) (take n a) = drop k (take n a)"
    by (rule Cons_nth_drop_Suc)
  then show ?thesis using assms(1) by simp
qed

lemma byte_at_in:
  "0 \<le> sint i \<Longrightarrow> nat (sint i) < length a \<Longrightarrow> byte_at a i = Some (a ! nat (sint i))"
  by (simp add: byte_at_def)

lemma xor_loop_sum:
  assumes "0 \<le> sint i" "sint i \<le> sint len" "nat (sint len) \<le> length a" "nat (sint len) \<le> length b"
  shows "xor_loop a b len i diff =
         Some (diff + of_nat (sum_list (map2 (\<lambda>x y. bit_count (x XOR y))
                  (drop (nat (sint i)) (take (nat (sint len)) a))
                  (drop (nat (sint i)) (take (nat (sint len)) b)))))"
  using assms
proof (induction a b len i diff rule: xor_loop.induct)
  case (1 a b len i diff)
  let ?k = "nat (sint i)" and ?n = "nat (sint len)"
  show ?case
  proof (cases "i <s len")
    case False
    then have "sint i = sint len" using "1.prems"(2) by (simp add: word_sless_alt)
    then show ?thesis using False by (subst xor_loop.simps) simp
  next
    case True
    then have lt: "sint i < sint len" by (simp add: word_sless_alt)
    have k: "?k < ?n" using lt "1.prems"(1) by simp
    have "?k < length a" "?k < length b"
      using k "1.prems"(3,4) by linarith+
    then have ra: "byte_at a i = Some (a ! ?k)" and rb: "byte_at b i = Some (b ! ?k)"
      using "1.prems"(1) by (simp_all add: byte_at_def)
    have s: "sint (i + 1) = sint i + 1" using True by (rule sint_succ_below)
    have k1: "nat (sint (i + 1)) = Suc ?k" using s "1.prems"(1) by simp
    have da: "drop ?k (take ?n a) = a ! ?k # drop (Suc ?k) (take ?n a)"
      using k "1.prems"(3) by (rule drop_take_step)
    have db: "drop ?k (take ?n b) = b ! ?k # drop (Suc ?k) (take ?n b)"
      using k "1.prems"(4) by (rule drop_take_step)
    have "xor_loop a b len (i + 1) (diff + builtin_popcount (ucast (a ! ?k) XOR ucast (b ! ?k))) =
          Some (diff + builtin_popcount (ucast (a ! ?k) XOR ucast (b ! ?k)) +
            of_nat (sum_list (map2 (\<lambda>x y. bit_count (x XOR y))
                  (drop (nat (sint (i + 1))) (take ?n a))
                  (drop (nat (sint (i + 1))) (take ?n b)))))"
      using "1.prems" s lt by (intro "1.IH" [OF True ra rb]) simp_all
    then show ?thesis
      using True by (subst xor_loop.simps) (simp add: ra rb da db k1 builtin_popcount_xor)
  qed
qed

lemma tail_loop_sum:
  assumes "0 \<le> sint i" "sint i \<le> sint alen" "nat (sint alen) \<le> length a"
  shows "tail_loop a alen i diff =
         Some (diff + of_nat (sum_list (map bit_count (drop (nat (sint i)) (take (nat (sint alen)) a)))))"
  using assms
proof (induction a alen i diff rule: tail_loop.induct)
  case (1 a alen i diff)
  let ?k = "nat (sint i)" and ?n = "nat (sint alen)"
  show ?case
  proof (cases "i <s alen")
    case False
    then have "sint i = sint alen" using "1.prems"(2) by (simp add: word_sless_alt)
    then show ?thesis using False by (subst tail_loop.simps) simp
  next
    case True
    then have lt: "sint i < sint alen" by (simp add: word_sless_alt)
    have k: "?k < ?n" using lt "1.prems"(1) by simp
    have "?k < length a"
      using k "1.prems"(3) by linarith
    then have ra: "byte_at a i = Some (a ! ?k)"
      using "1.prems"(1) by (simp add: byte_at_def)
    have s: "sint (i + 1) = sint i + 1" using True by (rule sint_succ_below)
    have k1: "nat (sint (i + 1)) = Suc ?k" using s "1.prems"(1) by simp
    have da: "drop ?k (take ?n a) = a ! ?k # drop (Suc ?k) (take ?n a)"
      using k "1.prems"(3) by (rule drop_take_step)
    have "tail_loop a alen (i + 1) (diff + builtin_popcount (ucast (a ! ?k))) =
          Some (diff + builtin_popcount (ucast (a ! ?k)) +
            of_nat (sum_list (map bit_count (drop (nat (sint (i + 1))) (take ?n a)))))"
      using "1.prems" s lt by (intro "1.IH" [OF True ra]) simp_all
    then show ?thesis
      using True by (subst tail_loop.simps) (simp add: ra da k1 builtin_popcount_byte)
  qed
qed

lemma general_path_sum:
  assumes "is_blob a alen" "is_blob b blen"
  shows "general_path a alen b blen = Some (of_nat (prefix_tail_sum a b))"
proof -
  define len where "len = (if alen <s blen then alen else blen)"
  let ?m = "min (length a) (length b)"
  have la: "sint alen = int (length a)" and lb: "sint blen = int (length b)"
    using assms by (simp_all add: is_blob_def)
  have len: "sint len = int ?m"
    unfolding len_def by (simp add: word_sless_alt la lb min_def)
  have z: "zip (take ?m a) (take ?m b) = zip a b"
    by (simp flip: take_zip)
  have "xor_loop a b len 0 0 = Some (0 + of_nat (sum_list (map2 (\<lambda>x y. bit_count (x XOR y))
          (drop (nat (sint (0 :: cint))) (take (nat (sint len)) a))
          (drop (nat (sint (0 :: cint))) (take (nat (sint len)) b)))))"
    by (rule xor_loop_sum) (simp_all add: len)
  then have x: "xor_loop a b len 0 0 = Some (of_nat (sum_list (map2 (\<lambda>x y. bit_count (x XOR y)) a b)))"
    by (simp add: len z)
  have ta: "tail_loop a alen len diff =
            Some (diff + of_nat (sum_list (map bit_count (drop ?m a))))" for diff
    using tail_loop_sum [of len alen a diff] by (simp add: len la)
  have tb: "tail_loop b blen len diff =
            Some (diff + of_nat (sum_list (map bit_count (drop ?m b))))" for diff
    using tail_loop_sum [of len blen b diff] by (simp add: len lb)
  have g: "general_path a alen b blen =
      (case xor_loop a b len 0 0 of
        None \<Rightarrow> None
      | Some diff \<Rightarrow>
          if len <s alen then tail_loop a alen len diff
          else if len <s blen then tail_loop b blen len diff
          else Some diff)"
    by (simp only: general_path_def len_def Let_def)
  show ?thesis
  proof (cases "length b < length a")
    case True
    then have "len <s alen" by (simp add: word_sless_alt len la)
    moreover have "?m = length b" "drop (length a) b = []" using True by simp_all
    ultimately show ?thesis
      by (simp add: g x ta prefix_tail_sum_def)
  next
    case False
    then have na: "\<not> len <s alen" by (simp add: word_sless_alt len la)
    show ?thesis
    proof (cases "length a < length b")
      case True
      then have "len <s blen" by (simp add: word_sless_alt len lb)
      moreover have "?m = length a" "drop (length b) a = []" using True by simp_all
      ultimately show ?thesis
        using na by (simp add: g x tb prefix_tail_sum_def)
    next
      case False
      then have "\<not> len <s blen" by (simp add: word_sless_alt len lb)
      moreover have "drop (length b) a = []" "drop (length a) b = []"
        using False \<open>\<not> length b < length a\<close> by simp_all
      ultimately show ?thesis
        using na by (simp add: g x prefix_tail_sum_def)
    qed
  qed
qed

section \<open>The fast path\<close>

lemma horner_le_val: "horner_sum uint 256 xs = int (le_val (map unat xs))"
  by (induction xs) simp_all

lemma le_val_less: "\<forall>d\<in>set ds. d < 256 \<Longrightarrow> le_val ds < 256 ^ length ds"
proof (induction ds)
  case Nil
  then show ?case by simp
next
  case (Cons d ds)
  then have "d < 256" "Suc (le_val ds) \<le> 256 ^ length ds" by simp_all
  then have "d + 256 * le_val ds < 256 * Suc (le_val ds)" by simp
  also have "\<dots> \<le> 256 * 256 ^ length ds"
    using \<open>Suc (le_val ds) \<le> 256 ^ length ds\<close> by (rule mult_le_mono2)
  finally show ?case by simp
qed

lemma unat_byte_less: "unat (x :: byte) < 256"
  using unsigned_less [of x, where ?'a = nat] by simp

lemma unat_word_rcat:
  fixes bs :: "byte list"
  assumes "length bs \<le> 8"
  shows "unat (word_rcat bs :: u64) = le_val (map unat (rev bs))"
proof -
  let ?n = "le_val (map unat (rev bs))"
  have "?n < 256 ^ length (map unat (rev bs))"
    by (rule le_val_less) (simp add: unat_byte_less)
  also have "\<dots> \<le> 256 ^ 8"
    using assms by (intro power_increasing) simp_all
  finally have "?n < 2 ^ 64" by simp
  then have "unat (of_nat ?n :: u64) = ?n"
    by (simp add: unsigned_of_nat take_bit_nat_eq_self)
  moreover have "(word_rcat bs :: u64) = of_nat ?n"
    by (simp add: word_rcat_def horner_le_val)
  ultimately show ?thesis by simp
qed

lemma le_val_xor:
  assumes "length xs = length ys" "\<forall>d\<in>set xs. d < 256" "\<forall>d\<in>set ys. d < 256"
  shows "le_val xs XOR le_val ys = le_val (map2 (XOR) xs ys)"
  using assms
proof (induction xs ys rule: list_induct2)
  case Nil
  then show ?case by simp
next
  case (Cons x xs y ys)
  then show ?case
    using xor_low_high [of x 8 y "le_val xs" "le_val ys"] by simp
qed

lemma popcount_nat_rcat_xor:
  fixes us vs :: "byte list"
  assumes "length us = length vs" "length us \<le> 8"
  shows "popcount_nat (unat (word_rcat us XOR word_rcat vs :: u64)) =
         sum_list (map2 (\<lambda>x y. bit_count (x XOR y)) us vs)"
proof -
  let ?xs = "map unat (rev us)" and ?ys = "map unat (rev vs)"
  have m: "map2 (XOR) ?xs ?ys = map unat (map2 (XOR) (rev us) (rev vs))"
    by (simp add: zip_map_map unsigned_xor_eq case_prod_unfold)
  have "unat (word_rcat us XOR word_rcat vs :: u64) = le_val ?xs XOR le_val ?ys"
    using assms by (simp add: unsigned_xor_eq unat_word_rcat)
  also have "\<dots> = le_val (map2 (XOR) ?xs ?ys)"
    using assms(1) by (intro le_val_xor) (simp_all add: unat_byte_less)
  finally have "popcount_nat (unat (word_rcat us XOR word_rcat vs :: u64)) =
                popcount_nat (le_val (map unat (map2 (XOR) (rev us) (rev vs))))"
    by (simp only: m)
  also have "\<dots> = sum_list (map popcount_nat (map unat (map2 (XOR) (rev us) (rev vs))))"
    by (rule popcount_nat_le_val) (simp add: unat_byte_less)
  also have "\<dots> = sum_list (map2 (\<lambda>x y. bit_count (x XOR y)) (rev us) (rev vs))"
    by (simp add: bit_count_pc comp_def case_prod_unfold)
  also have "\<dots> = sum_list (map2 (\<lambda>x y. bit_count (x XOR y)) us vs)"
    using assms(1) by (simp add: zip_rev sum_list_rev flip: rev_map)
  finally show ?thesis .
qed

lemma popcount_u64_pc: "popcount_u64 t x = of_nat (popcount_nat (unat x))"
  by (simp add: popcount_u64_def builtin_popcountll_def bit_count_pc fallback_pc)

lemma fast_path_sum:
  assumes "length a = 8" "length b = 8"
  shows "fast_path t a b = Some (of_nat (sum_list (map2 (\<lambda>x y. bit_count (x XOR y)) a b)))"
proof (cases "big_endian t")
  case True
  then show ?thesis
    using assms popcount_nat_rcat_xor [of a b]
    by (simp add: fast_path_def memcpy_u64_def popcount_u64_pc)
next
  case False
  then show ?thesis
    using assms popcount_nat_rcat_xor [of "rev a" "rev b"]
    by (simp add: fast_path_def memcpy_u64_def popcount_u64_pc zip_rev flip: rev_map)
qed

lemma blob_sum:
  assumes "is_blob a alen" "is_blob b blen"
  shows "hamming_distance_blob t a alen b blen = Some (of_nat (prefix_tail_sum a b))"
proof (cases "alen = 8 \<and> blen = 8")
  case True
  then have "length a = 8" "length b = 8"
    using assms by (simp_all add: is_blob_def)
  then show ?thesis
    using True by (simp add: hamming_distance_blob_def fast_path_sum prefix_tail_sum_def)
next
  case False
  then show ?thesis
    using assms by (auto simp: hamming_distance_blob_def general_path_sum)
qed

section \<open>Properties of the distance\<close>

lemma pts_simps:
  "prefix_tail_sum [] b = sum_list (map bit_count b)"
  "prefix_tail_sum a [] = sum_list (map bit_count a)"
  "prefix_tail_sum (x # a) (y # b) = bit_count (x XOR y) + prefix_tail_sum a b"
  by (simp_all add: prefix_tail_sum_def)

lemma bit_count_0 [simp]: "bit_count 0 = 0"
  by (simp add: bit_count_def)

lemma bit_count_le: "bit_count (w :: 'a::len word) \<le> LENGTH('a)"
  using length_filter_le [of "bit w" "[0..<LENGTH('a)]"] by (simp add: bit_count_def)

lemma sum_bit_count_le: "sum_list (map bit_count (xs :: byte list)) \<le> 8 * length xs"
proof (induction xs)
  case Nil
  then show ?case by simp
next
  case (Cons x xs)
  then show ?case using bit_count_le [of x] by simp
qed

lemma pts_le: "prefix_tail_sum a b \<le> 8 * max (length a) (length b)"
proof (induction a b rule: list_induct2')
  case 1
  then show ?case by (simp add: pts_simps)
next
  case (2 x xs)
  then show ?case using sum_bit_count_le [of "x # xs"] by (simp add: pts_simps)
next
  case (3 y ys)
  then show ?case using sum_bit_count_le [of "y # ys"] by (simp add: pts_simps)
next
  case (4 x xs y ys)
  then show ?case using bit_count_le [of "x XOR y"] by (simp add: pts_simps)
qed

lemma pts_commute: "prefix_tail_sum a b = prefix_tail_sum b a"
  by (induction a b rule: list_induct2') (simp_all add: pts_simps xor.commute)

lemma pts_self: "prefix_tail_sum a a = 0"
  by (induction a) (simp_all add: pts_simps)

lemma filter_length_or:
  assumes "\<And>i. P i \<Longrightarrow> Q i \<or> R i"
  shows "length (filter P xs) \<le> length (filter Q xs) + length (filter R xs)"
  using assms by (induction xs) auto

lemma bit_count_triangle:
  "bit_count (x XOR z) \<le> bit_count (x XOR y) + bit_count (y XOR z)"
  unfolding bit_count_def by (rule filter_length_or) (auto simp: bit_xor_iff)

lemma pts_triangle:
  assumes "length a = length b" "length b = length c"
  shows "prefix_tail_sum a c \<le> prefix_tail_sum a b + prefix_tail_sum b c"
  using assms
proof (induction a b c rule: list_induct3)
  case Nil
  then show ?case by (simp add: pts_simps)
next
  case (Cons x xs y ys z zs)
  then show ?case using bit_count_triangle [of x z y] by (simp add: pts_simps)
qed

section \<open>The sum of the specification counts the differing bit positions\<close>

lemma count_product:
  "length (filter P (List.product xs ys)) = sum_list (map (\<lambda>x. length (filter (\<lambda>y. P (x, y)) ys)) xs)"
  by (induction xs) (simp_all add: filter_map comp_def)

lemma count_differing_bits:
  fixes u v :: byte
  shows "length (filter (\<lambda>j. bit u j \<noteq> bit v j) [0..<8]) = bit_count (u XOR v)"
proof -
  have "(\<lambda>j. bit u j \<noteq> bit v j) = bit (u XOR v)"
    by (auto simp: fun_eq_iff bit_xor_iff)
  then show ?thesis
    by (simp add: bit_count_def)
qed

lemma map2_nth:
  assumes "length xs = length ys"
  shows "map (\<lambda>i. f (xs ! i) (ys ! i)) [0..<length xs] = map2 f xs ys"
  using assms by (intro nth_equalityI) simp_all

lemma zip_zeros_left:
  "map2 f (replicate (length ys) z) ys = map (f z) ys"
  by (induction ys) simp_all

lemma zip_zeros_right:
  "map2 f xs (replicate (length xs) z) = map (\<lambda>x. f x z) xs"
  by (induction xs) simp_all

lemma zero_extend_sum:
  "sum_list (map2 (\<lambda>x y. bit_count (x XOR y))
     (zero_extend (max (length a) (length b)) a) (zero_extend (max (length a) (length b)) b))
   = prefix_tail_sum a b"
proof (induction a b rule: list_induct2')
  case 1
  then show ?case by (simp add: zero_extend_def pts_simps)
next
  case (2 x xs)
  then show ?case
    using zip_zeros_right [of "\<lambda>x y. bit_count (x XOR y)" "x # xs" 0]
    by (simp add: zero_extend_def pts_simps)
next
  case (3 y ys)
  then show ?case
    using zip_zeros_left [of "\<lambda>x y. bit_count (x XOR y)" "y # ys" 0]
    by (simp add: zero_extend_def pts_simps)
next
  case (4 x xs y ys)
  then show ?case by (simp add: zero_extend_def pts_simps)
qed

lemma hamming_spec_sum: "hamming_spec a b = prefix_tail_sum a b"
proof -
  define n where "n = max (length a) (length b)"
  define za where "za = zero_extend n a"
  define zb where "zb = zero_extend n b"
  have l: "length za = n" "length zb = n"
    by (simp_all add: za_def zb_def zero_extend_def n_def)
  have "hamming_spec a b =
        length (filter (\<lambda>(i, j). bit (za ! i) j \<noteq> bit (zb ! i) j) (List.product [0..<n] [0..<8]))"
    by (simp only: hamming_spec_def Let_def n_def za_def zb_def)
  also have "\<dots> = sum_list (map (\<lambda>i. length (filter (\<lambda>j. bit (za ! i) j \<noteq> bit (zb ! i) j) [0..<8])) [0..<n])"
    by (simp only: count_product case_prod_conv)
  also have "\<dots> = sum_list (map (\<lambda>i. bit_count (za ! i XOR zb ! i)) [0..<length za])"
    by (simp only: count_differing_bits l)
  also have "\<dots> = sum_list (map2 (\<lambda>x y. bit_count (x XOR y)) za zb)"
    using map2_nth [of za zb "\<lambda>x y. bit_count (x XOR y)"] l by simp
  also have "\<dots> = prefix_tail_sum a b"
    unfolding za_def zb_def n_def by (rule zero_extend_sum)
  finally show ?thesis .
qed

section \<open>Reading the result as an int\<close>

lemma sint_of_nat_small:
  assumes "n < 2 ^ 31"
  shows "sint (of_nat n :: cint) = int n"
proof -
  have "signed_take_bit 31 (int n) = int n"
    using assms by (intro signed_take_bit_int_eq_self) simp_all
  then show ?thesis
    by (simp add: signed_of_nat)
qed

section \<open>Distances of constant sequences, and sums over indices\<close>

lemma pts_replicate:
  "prefix_tail_sum (replicate n x) (replicate n y) = n * bit_count (x XOR y)"
  by (induction n) (simp_all add: pts_simps)

lemma pts_replicate_Nil:
  "prefix_tail_sum (replicate n x) [] = n * bit_count x"
  "prefix_tail_sum [] (replicate n x) = n * bit_count x"
  by (simp_all add: pts_simps sum_list_replicate)

lemma sum_map2_nth:
  assumes "length a = length b"
  shows "sum_list (map2 f a b) = (\<Sum>i<length a. f (a ! i) (b ! i))"
proof -
  have "sum_list (map2 f a b) = sum_list (map (\<lambda>i. f (a ! i) (b ! i)) [0..<length a])"
    using map2_nth [OF assms, of f] by simp
  also have "\<dots> = (\<Sum>i<length a. f (a ! i) (b ! i))"
    by (simp add: interv_sum_list_conv_sum_set_nat atLeast0LessThan)
  finally show ?thesis .
qed

section \<open>popcount\_u64 counts the 1-bits\<close>

text \<open>
  Claim C7. For every 64-bit value \<open>x\<close> and on either compilation target,
  \<^verbatim>\<open>popcount_u64(x)\<close> is the number of bit positions at which \<open>x\<close> has a 1; it is 0
  for 0 and 64 for the all-ones value; and the portable fallback returns the same value as
  the compiler builtin on every input.
\<close>

theorem popcount_u64_counts_bits:
  "sint (popcount_u64 t x) = int (card {n. bit x n})
   \<and> popcount_u64 t 0 = 0
   \<and> popcount_u64 t (- 1) = 64
   \<and> popcount_u64_fallback x = builtin_popcountll x"
proof -
  have eq: "popcount_u64 t y = of_nat (bit_count y)" for y
    by (simp add: popcount_u64_pc bit_count_pc)
  have "bit_count x < 2 ^ 31"
    using bit_count_le [of x] by simp
  then have "sint (popcount_u64 t x) = int (bit_count x)"
    unfolding eq by (rule sint_of_nat_small)
  moreover have "bit_count (- 1 :: u64) = 64"
    by (simp add: bit_count_def)
  moreover have "popcount_u64_fallback x = builtin_popcountll x"
    by (simp add: fallback_pc builtin_popcountll_def bit_count_pc)
  ultimately show ?thesis
    by (simp add: eq bit_count_card)
qed

section \<open>hamming\_distance\_blob computes the distance of the specification\<close>

text \<open>
  Claim C1, amended. For blobs \<open>a\<close> and \<open>b\<close> of any lengths with
  \<open>8 * max (length a) (length b) < 2 ^ 31\<close>, \<^verbatim>\<open>hamming_distance_blob\<close> returns the number of
  bit positions that differ once the shorter blob is zero-extended at its end, and this number
  is the sum of the bit counts of \<open>a[i] XOR b[i]\<close> over the common prefix plus the bit counts
  of the trailing bytes of the longer blob. Without the bound on the lengths the \<^verbatim>\<open>int\<close>
  result is this number only modulo \<open>2 ^ 32\<close>.
\<close>

theorem blob_counts_differing_bits:
  assumes "is_blob a alen" "is_blob b blen" "8 * max (length a) (length b) < 2 ^ 31"
  shows "hamming_distance_blob t a alen b blen = Some (of_nat (hamming_spec a b))
         \<and> sint (of_nat (hamming_spec a b) :: cint) = int (hamming_spec a b)
         \<and> hamming_spec a b = prefix_tail_sum a b"
proof -
  have "prefix_tail_sum a b < 2 ^ 31"
    using pts_le [of a b] assms(3) by (rule le_less_trans)
  then have "hamming_spec a b < 2 ^ 31"
    by (simp only: hamming_spec_sum)
  then have "sint (of_nat (hamming_spec a b) :: cint) = int (hamming_spec a b)"
    by (rule sint_of_nat_small)
  then show ?thesis
    using blob_sum [OF assms(1,2)] by (simp add: hamming_spec_sum)
qed

text \<open>
  The example of the specification: eight zero bytes against eight zero bytes followed by two
  bytes \<open>0xFF\<close> are at distance 16.
\<close>

theorem blob_counts_differing_bits_witness:
  "is_blob [0, 0, 0, 0, 0, 0, 0, 0] 8
   \<and> is_blob [0, 0, 0, 0, 0, 0, 0, 0, 0xFF, 0xFF] 10
   \<and> 8 * max (length [0 :: byte, 0, 0, 0, 0, 0, 0, 0])
              (length [0 :: byte, 0, 0, 0, 0, 0, 0, 0, 0xFF, 0xFF]) < (2 :: nat) ^ 31
   \<and> hamming_distance_blob \<lparr>have_popcnt = True, big_endian = False\<rparr>
        [0, 0, 0, 0, 0, 0, 0, 0] 8 [0, 0, 0, 0, 0, 0, 0, 0, 0xFF, 0xFF] 10 = Some 16
   \<and> hamming_spec [0, 0, 0, 0, 0, 0, 0, 0] [0, 0, 0, 0, 0, 0, 0, 0, 0xFF, 0xFF] = 16"
  using blob_counts_differing_bits
    [of "[0, 0, 0, 0, 0, 0, 0, 0]" 8 "[0, 0, 0, 0, 0, 0, 0, 0, 0xFF, 0xFF]" 10
        "\<lparr>have_popcnt = True, big_endian = False\<rparr>"]
  by (simp add: is_blob_def prefix_tail_sum_def bit_count_pc)

text \<open>
  As the property is stated, without a bound on the lengths, it fails: the empty blob and
  \<open>2 ^ 28\<close> bytes \<open>0xFF\<close> differ in \<open>2 ^ 31\<close> bit positions, and the function returns the
  \<^verbatim>\<open>int\<close> \<open>- 2 ^ 31\<close>.
\<close>

theorem blob_counts_differing_bits_counterexample:
  "is_blob [] 0 \<and> is_blob (replicate 268435456 0xFF) 268435456
   \<and> hamming_distance_blob \<lparr>have_popcnt = True, big_endian = False\<rparr>
        [] 0 (replicate 268435456 0xFF) 268435456 = Some 0x80000000
   \<and> hamming_spec [] (replicate 268435456 0xFF) = 2147483648
   \<and> sint (0x80000000 :: cint) = - 2147483648
   \<and> sint (0x80000000 :: cint) \<noteq> int (hamming_spec [] (replicate 268435456 0xFF))"
proof -
  have blobs: "is_blob [] 0" "is_blob (replicate 268435456 0xFF) 268435456"
    by (simp_all add: is_blob_def)
  then have "hamming_distance_blob \<lparr>have_popcnt = True, big_endian = False\<rparr>
     [] 0 (replicate 268435456 0xFF) 268435456
     = Some (of_nat (prefix_tail_sum [] (replicate 268435456 0xFF)))"
    by (rule blob_sum)
  moreover have "prefix_tail_sum [] (replicate 268435456 (0xFF :: byte)) = 2147483648"
    by (simp add: pts_replicate_Nil bit_count_pc)
  ultimately show ?thesis
    using blobs by (simp add: hamming_spec_sum)
qed

text \<open>
  Claim C2. For all 8-byte sequences \<open>a\<close> and \<open>b\<close>, on either target, the fast path
  (load both as 64-bit words, XOR, \<^verbatim>\<open>popcount_u64\<close>) returns what the general byte-wise path
  returns on the same inputs, which is the sum over the 8 positions of the bit count of
  \<open>a[i] XOR b[i]\<close>.
\<close>

theorem fast_path_agrees_with_general_path:
  assumes "length a = 8" "length b = 8"
  shows "fast_path t a b = general_path a 8 b 8
         \<and> general_path a 8 b 8 = Some (of_nat (\<Sum>i<8. bit_count (a ! i XOR b ! i)))"
proof -
  have blobs: "is_blob a 8" "is_blob b 8"
    using assms by (simp_all add: is_blob_def)
  have "prefix_tail_sum a b = sum_list (map2 (\<lambda>x y. bit_count (x XOR y)) a b)"
    using assms by (simp add: prefix_tail_sum_def)
  also have "\<dots> = (\<Sum>i<8. bit_count (a ! i XOR b ! i))"
    using sum_map2_nth [of a b "\<lambda>x y. bit_count (x XOR y)"] assms by simp
  finally have "general_path a 8 b 8 = Some (of_nat (\<Sum>i<8. bit_count (a ! i XOR b ! i)))"
    using general_path_sum [OF blobs] by simp
  moreover have "fast_path t a b = Some (of_nat (\<Sum>i<8. bit_count (a ! i XOR b ! i)))"
    using fast_path_sum [OF assms, of t] sum_map2_nth [of a b "\<lambda>x y. bit_count (x XOR y)"] assms
    by simp
  ultimately show ?thesis by simp
qed

theorem fast_path_agrees_with_general_path_witness:
  "length [0 :: byte, 0, 0, 0, 0, 0, 0, 0] = 8
   \<and> length [0xFF :: byte, 0xFF, 0xFF, 0xFF, 0xFF, 0xFF, 0xFF, 0xFF] = 8
   \<and> fast_path \<lparr>have_popcnt = False, big_endian = False\<rparr>
        [0, 0, 0, 0, 0, 0, 0, 0] [0xFF, 0xFF, 0xFF, 0xFF, 0xFF, 0xFF, 0xFF, 0xFF]
       = general_path [0, 0, 0, 0, 0, 0, 0, 0] 8 [0xFF, 0xFF, 0xFF, 0xFF, 0xFF, 0xFF, 0xFF, 0xFF] 8
   \<and> general_path [0, 0, 0, 0, 0, 0, 0, 0] 8 [0xFF, 0xFF, 0xFF, 0xFF, 0xFF, 0xFF, 0xFF, 0xFF] 8
       = Some 64"
  using fast_path_agrees_with_general_path
    [of "[0, 0, 0, 0, 0, 0, 0, 0]" "[0xFF, 0xFF, 0xFF, 0xFF, 0xFF, 0xFF, 0xFF, 0xFF]"
        "\<lparr>have_popcnt = False, big_endian = False\<rparr>"]
  by (simp add: bit_count_pc lessThan_nat_numeral lessThan_Suc)

text \<open>
  Claim C4. For all blobs \<open>a\<close> and \<open>b\<close>, of equal or different lengths, empty or not,
  \<^verbatim>\<open>hamming_distance_blob(a, b)\<close> and \<^verbatim>\<open>hamming_distance_blob(b, a)\<close> return the same value.
\<close>

theorem blob_symmetric:
  assumes "is_blob a alen" "is_blob b blen"
  shows "\<exists>d. hamming_distance_blob t a alen b blen = Some d
            \<and> hamming_distance_blob t b blen a alen = Some d"
  using blob_sum [OF assms, of t] blob_sum [OF assms(2,1), of t]
  by (simp add: pts_commute [of b a])

theorem blob_symmetric_witness:
  "is_blob [0xFF, 0x01] 2 \<and> is_blob [] 0
   \<and> (\<exists>d. hamming_distance_blob \<lparr>have_popcnt = True, big_endian = False\<rparr> [0xFF, 0x01] 2 [] 0 = Some d
          \<and> hamming_distance_blob \<lparr>have_popcnt = True, big_endian = False\<rparr> [] 0 [0xFF, 0x01] 2 = Some d)"
  using blob_symmetric [of "[0xFF, 0x01]" 2 "[]" 0 "\<lparr>have_popcnt = True, big_endian = False\<rparr>"]
  by (simp add: is_blob_def)

text \<open>
  Claim C5. For every blob \<open>a\<close>, of any length (among them 0, and 8, where the fast path
  is taken), \<^verbatim>\<open>hamming_distance_blob(a, a)\<close> returns 0.
\<close>

theorem blob_self_distance_zero:
  "is_blob a alen \<Longrightarrow> hamming_distance_blob t a alen a alen = Some 0"
  using blob_sum [of a alen a alen t] by (simp add: pts_self)

theorem blob_self_distance_zero_witness:
  "is_blob [1, 2, 3, 4, 5, 6, 7, 8] 8
   \<and> hamming_distance_blob \<lparr>have_popcnt = False, big_endian = True\<rparr>
        [1, 2, 3, 4, 5, 6, 7, 8] 8 [1, 2, 3, 4, 5, 6, 7, 8] 8 = Some 0"
  using blob_self_distance_zero
    [of "[1, 2, 3, 4, 5, 6, 7, 8]" 8 "\<lparr>have_popcnt = False, big_endian = True\<rparr>"]
  by (simp add: is_blob_def)

text \<open>
  Claim C6, amended. For blobs \<open>a\<close> and \<open>b\<close> with
  \<open>8 * max (length a) (length b) < 2 ^ 31\<close>, the \<^verbatim>\<open>int\<close> that \<^verbatim>\<open>hamming_distance_blob\<close> returns
  is non-negative, at most \<open>8 * max (length a) (length b)\<close>, and equal to the sum of the bit
  counts computed without wrap-around.
\<close>

theorem blob_distance_bounded:
  assumes "is_blob a alen" "is_blob b blen" "8 * max (length a) (length b) < 2 ^ 31"
  shows "\<exists>d. hamming_distance_blob t a alen b blen = Some d
            \<and> 0 \<le> sint d
            \<and> sint d \<le> 8 * int (max (length a) (length b))
            \<and> sint d = int (prefix_tail_sum a b)"
proof -
  have le: "prefix_tail_sum a b \<le> 8 * max (length a) (length b)"
    by (rule pts_le)
  then have "prefix_tail_sum a b < 2 ^ 31"
    using assms(3) by (rule le_less_trans)
  then have s: "sint (of_nat (prefix_tail_sum a b) :: cint) = int (prefix_tail_sum a b)"
    by (rule sint_of_nat_small)
  have "int (prefix_tail_sum a b) \<le> 8 * int (max (length a) (length b))"
    using le by linarith
  then show ?thesis
    using blob_sum [OF assms(1,2), of t] s by simp
qed

theorem blob_distance_bounded_witness:
  "is_blob [] 0 \<and> is_blob [0xFF, 0x0F] 2
   \<and> 8 * max (length ([] :: byte list)) (length [0xFF :: byte, 0x0F]) < (2 :: nat) ^ 31
   \<and> (\<exists>d. hamming_distance_blob \<lparr>have_popcnt = True, big_endian = False\<rparr> [] 0 [0xFF, 0x0F] 2 = Some d
          \<and> 0 \<le> sint d \<and> sint d \<le> 16 \<and> sint d = 12)"
  using blob_distance_bounded [of "[]" 0 "[0xFF, 0x0F]" 2 "\<lparr>have_popcnt = True, big_endian = False\<rparr>"]
  by (simp add: is_blob_def prefix_tail_sum_def bit_count_pc)

text \<open>
  As the property is stated, for all blobs, it fails: for \<open>2 ^ 28\<close> bytes \<open>0xFF\<close> against the
  empty blob the additions in \<^verbatim>\<open>int\<close> leave the range, and the value returned is negative.
\<close>

theorem blob_distance_bounded_counterexample:
  "is_blob (replicate 268435456 0xFF) 268435456 \<and> is_blob [] 0
   \<and> hamming_distance_blob \<lparr>have_popcnt = True, big_endian = False\<rparr>
        (replicate 268435456 0xFF) 268435456 [] 0 = Some 0x80000000
   \<and> sint (0x80000000 :: cint) < 0"
proof -
  have blobs: "is_blob (replicate 268435456 0xFF) 268435456" "is_blob [] 0"
    by (simp_all add: is_blob_def)
  then have "hamming_distance_blob \<lparr>have_popcnt = True, big_endian = False\<rparr>
     (replicate 268435456 0xFF) 268435456 [] 0
     = Some (of_nat (prefix_tail_sum (replicate 268435456 0xFF) []))"
    by (rule blob_sum)
  moreover have "prefix_tail_sum (replicate 268435456 (0xFF :: byte)) [] = 2147483648"
    by (simp add: pts_replicate_Nil bit_count_pc)
  ultimately show ?thesis
    using blobs by simp
qed

text \<open>
  Claim C8, amended. For blobs \<open>a\<close>, \<open>b\<close> and \<open>c\<close> of the same length \<open>n\<close> with
  \<open>8 * n < 2 ^ 31\<close>, the distance from \<open>a\<close> to \<open>c\<close> is at most the distance from \<open>a\<close> to
  \<open>b\<close> plus the distance from \<open>b\<close> to \<open>c\<close>.
\<close>

theorem blob_triangle:
  assumes "is_blob a n" "is_blob b n" "is_blob c n" "8 * length a < 2 ^ 31"
  shows "\<exists>dab dbc dac.
           hamming_distance_blob t a n b n = Some dab
         \<and> hamming_distance_blob t b n c n = Some dbc
         \<and> hamming_distance_blob t a n c n = Some dac
         \<and> sint dac \<le> sint dab + sint dbc"
proof -
  have len: "length a = length b" "length b = length c"
    using assms(1-3) by (simp_all add: is_blob_def)
  have small: "prefix_tail_sum x y < 2 ^ 31" if "length x = length a" "length y = length a" for x y
  proof -
    have "prefix_tail_sum x y \<le> 8 * max (length x) (length y)" by (rule pts_le)
    also have "\<dots> = 8 * length a" using that by simp
    finally show ?thesis using assms(4) by (rule le_less_trans)
  qed
  have r: "sint (of_nat (prefix_tail_sum x y) :: cint) = int (prefix_tail_sum x y)"
    if "length x = length a" "length y = length a" for x y
    using small [OF that] by (rule sint_of_nat_small)
  have ab: "hamming_distance_blob t a n b n = Some (of_nat (prefix_tail_sum a b))"
    using assms(1,2) by (rule blob_sum)
  have bc: "hamming_distance_blob t b n c n = Some (of_nat (prefix_tail_sum b c))"
    using assms(2,3) by (rule blob_sum)
  have ac: "hamming_distance_blob t a n c n = Some (of_nat (prefix_tail_sum a c))"
    using assms(1,3) by (rule blob_sum)
  have "int (prefix_tail_sum a c) \<le> int (prefix_tail_sum a b) + int (prefix_tail_sum b c)"
    using pts_triangle [OF len] by linarith
  then have "sint (of_nat (prefix_tail_sum a c) :: cint)
             \<le> sint (of_nat (prefix_tail_sum a b) :: cint) + sint (of_nat (prefix_tail_sum b c) :: cint)"
    using len by (simp only: r)
  with ab bc ac show ?thesis
    by blast
qed

theorem blob_triangle_witness:
  "is_blob [0x0F] 1 \<and> is_blob [0xFF] 1 \<and> is_blob [0xF0] 1
   \<and> 8 * length [0x0F :: byte] < (2 :: nat) ^ 31
   \<and> (\<exists>dab dbc dac.
           hamming_distance_blob \<lparr>have_popcnt = True, big_endian = False\<rparr> [0x0F] 1 [0xFF] 1 = Some dab
         \<and> hamming_distance_blob \<lparr>have_popcnt = True, big_endian = False\<rparr> [0xFF] 1 [0xF0] 1 = Some dbc
         \<and> hamming_distance_blob \<lparr>have_popcnt = True, big_endian = False\<rparr> [0x0F] 1 [0xF0] 1 = Some dac
         \<and> sint dac \<le> sint dab + sint dbc)"
  using blob_triangle [of "[0x0F]" 1 "[0xFF]" "[0xF0]" "\<lparr>have_popcnt = True, big_endian = False\<rparr>"]
  by (simp add: is_blob_def)

text \<open>
  As the property is stated, for all lengths, it fails: with \<open>2 ^ 28\<close> bytes each, \<open>a\<close> all
  zero, \<open>b\<close> all \<open>0xFF\<close> and \<open>c\<close> zero but for one bit, the three values returned are
  1 for \<open>(a, c)\<close>, \<open>- 2 ^ 31\<close> for \<open>(a, b)\<close> and \<open>2 ^ 31 - 1\<close> for \<open>(b, c)\<close>.
\<close>

theorem blob_triangle_counterexample:
  "is_blob (0 # replicate 268435455 0) 268435456
   \<and> is_blob (0xFF # replicate 268435455 0xFF) 268435456
   \<and> is_blob (1 # replicate 268435455 0) 268435456
   \<and> hamming_distance_blob \<lparr>have_popcnt = True, big_endian = False\<rparr>
     (0 # replicate 268435455 0) 268435456 (1 # replicate 268435455 0) 268435456 = Some 1
   \<and> hamming_distance_blob \<lparr>have_popcnt = True, big_endian = False\<rparr>
     (0 # replicate 268435455 0) 268435456 (0xFF # replicate 268435455 0xFF) 268435456 = Some 0x80000000
   \<and> hamming_distance_blob \<lparr>have_popcnt = True, big_endian = False\<rparr>
     (0xFF # replicate 268435455 0xFF) 268435456 (1 # replicate 268435455 0) 268435456 = Some 0x7FFFFFFF
   \<and> \<not> sint (1 :: cint) \<le> sint (0x80000000 :: cint) + sint (0x7FFFFFFF :: cint)"
proof -
  let ?t = "\<lparr>have_popcnt = True, big_endian = False\<rparr>"
  let ?A = "0 # replicate 268435455 (0 :: byte)"
  let ?B = "0xFF # replicate 268435455 (0xFF :: byte)"
  let ?C = "1 # replicate 268435455 (0 :: byte)"
  have blobs: "is_blob ?A 268435456" "is_blob ?B 268435456" "is_blob ?C 268435456"
    by (simp_all add: is_blob_def)
  have "prefix_tail_sum ?A ?C = 1" "prefix_tail_sum ?A ?B = 2147483648"
    "prefix_tail_sum ?B ?C = 2147483647"
    by (simp_all add: pts_simps(3) pts_replicate bit_count_pc)
  then show ?thesis
    using blobs blob_sum [OF blobs(1,3), of ?t] blob_sum [OF blobs(1,2), of ?t]
      blob_sum [OF blobs(2,3), of ?t]
    by simp
qed

section \<open>The SQL function: argument count and NULL arguments\<close>

lemma null_pointer_gives_null:
  assumes "sqlite3_value_blob v0 = None \<or> sqlite3_value_blob v1 = None"
  shows "hamming_distance_sql t 2 [v0, v1] = [Result_null]"
  using assms by (auto simp: hamming_distance_sql_def Let_def split: option.splits)

text \<open>
  Claim C9. Whenever \<^verbatim>\<open>hamming_distance_sql\<close> is called with an argument count other than
  2, whatever the arguments are, the only thing it does is to report SQL NULL: no error
  is reported, nothing undefined happens and \<^verbatim>\<open>hamming_distance_blob\<close> is not called.
\<close>

theorem wrong_argc_gives_null:
  "argc \<noteq> 2 \<Longrightarrow> hamming_distance_sql t argc argv = [Result_null]"
  by (simp add: hamming_distance_sql_def)

theorem wrong_argc_gives_null_witness:
  "(3 :: cint) \<noteq> 2 \<and>
   hamming_distance_sql \<lparr>have_popcnt = True, big_endian = False\<rparr> 3
     [SQL_Blob [1], SQL_Blob [2], SQL_Null] = [Result_null]"
  using wrong_argc_gives_null
    [of 3 "\<lparr>have_popcnt = True, big_endian = False\<rparr>" "[SQL_Blob [1], SQL_Blob [2], SQL_Null]"]
  by simp

text \<open>
  Claim C3. Whenever the function is called with exactly two arguments of which one (or
  both) is SQL NULL, the only thing it does is to report SQL NULL: it reports neither an
  integer (so not zero) nor an error, and it does not call \<^verbatim>\<open>hamming_distance_blob\<close>.
\<close>

theorem null_argument_gives_null:
  "v0 = SQL_Null \<or> v1 = SQL_Null \<Longrightarrow> hamming_distance_sql t 2 [v0, v1] = [Result_null]"
  by (rule null_pointer_gives_null) auto

theorem null_argument_gives_null_witness:
  "(SQL_Blob [0xFF] = SQL_Null \<or> SQL_Null = SQL_Null)
   \<and> hamming_distance_sql \<lparr>have_popcnt = True, big_endian = False\<rparr> 2
        [SQL_Blob [0xFF], SQL_Null] = [Result_null]"
  using null_argument_gives_null
    [of "SQL_Blob [0xFF]" SQL_Null "\<lparr>have_popcnt = True, big_endian = False\<rparr>"]
  by simp

text \<open>
  Claim C10. With two arguments, the function reports SQL NULL (and does not call
  \<^verbatim>\<open>hamming_distance_blob\<close>) exactly when \<^verbatim>\<open>sqlite3_value_blob\<close> returns a null pointer for
  one of them. That is the case for a zero-length blob: a call with an empty blob as either
  operand reports SQL NULL, although \<^verbatim>\<open>hamming_distance_blob\<close> itself, given the empty
  sequence and a blob \<open>bs\<close>, returns the sum of the bit counts of the bytes of \<open>bs\<close>.
\<close>

theorem empty_blob_gives_null:
  "(hamming_distance_sql t 2 [v0, v1] = [Result_null]
      \<longleftrightarrow> sqlite3_value_blob v0 = None \<or> sqlite3_value_blob v1 = None)
   \<and> sqlite3_value_blob (SQL_Blob []) = None
   \<and> hamming_distance_sql t 2 [SQL_Blob [], SQL_Blob bs] = [Result_null]
   \<and> hamming_distance_sql t 2 [SQL_Blob bs, SQL_Blob []] = [Result_null]
   \<and> (is_blob bs blen \<longrightarrow>
        hamming_distance_blob t [] 0 bs blen = Some (of_nat (sum_list (map bit_count bs))))"
proof -
  have "hamming_distance_sql t 2 [v0, v1] \<noteq> [Result_null]"
    if "sqlite3_value_blob v0 \<noteq> None" "sqlite3_value_blob v1 \<noteq> None"
    using that by (auto simp: hamming_distance_sql_def Let_def)
  then have iff: "hamming_distance_sql t 2 [v0, v1] = [Result_null]
      \<longleftrightarrow> sqlite3_value_blob v0 = None \<or> sqlite3_value_blob v1 = None"
    using null_pointer_gives_null [of v0 v1 t] by blast
  have "is_blob [] 0" by (simp add: is_blob_def)
  then have "is_blob bs blen \<Longrightarrow>
      hamming_distance_blob t [] 0 bs blen = Some (of_nat (sum_list (map bit_count bs)))"
    using blob_sum [of "[]" 0 bs blen t] by (simp add: pts_simps)
  then show ?thesis
    using iff by (simp add: null_pointer_gives_null)
qed

theorem empty_blob_gives_null_witness:
  "sqlite3_value_blob (SQL_Blob []) = None
   \<and> hamming_distance_sql \<lparr>have_popcnt = True, big_endian = False\<rparr> 2
        [SQL_Blob [], SQL_Blob [0xFF]] = [Result_null]
   \<and> is_blob [0xFF] 1
   \<and> hamming_distance_blob \<lparr>have_popcnt = True, big_endian = False\<rparr> [] 0 [0xFF] 1 = Some 8"
  using empty_blob_gives_null
    [of "\<lparr>have_popcnt = True, big_endian = False\<rparr>" "SQL_Blob []" "SQL_Blob [0xFF]" "[0xFF]" 1]
  by (simp add: is_blob_def bit_count_pc)

end
